theory Spec2Isabelle
  imports Complex_Main
begin

section \<open>The clustering engine of \<^verbatim>\<open>app.py\<close>\<close>

text \<open>
  The two functions \<^verbatim>\<open>find_optimal_clusters\<close> and \<^verbatim>\<open>perform_clustering\<close> of
  \<^verbatim>\<open>src/app.py\<close> are embedded below, together with the parts of numpy and
  scikit-learn they call.

  \<^item> A float is a \<^typ>\<open>real\<close>: rounding is not modelled. The one non-finite value
    the code can produce, the row of NaN that \<^verbatim>\<open>mean(axis=0)\<close> returns for an empty
    selection, is the centroid \<open>None\<close>.
  \<^item> An exception is a value \<open>Inl e\<close> of a sum type.
  \<^item> The global generator of \<^verbatim>\<open>np.random\<close> is explicit state of an arbitrary type
    \<open>'g\<close>, threaded through both functions. What seeding and permuting do to it is a
    parameter (\<open>random_state\<close>), as is \<^verbatim>\<open>silhouette_score\<close>.
  \<^item> For the assignment rule, which depends on which distances are equal, the loop is
    given a second time with the arithmetic of the distance computation as a parameter
    (\<open>loop_with\<close>), so that the statement holds of the rounded distances as well.
\<close>

subsection \<open>Data\<close>

datatype error = ValueError | IndexError

type_synonym vec = "real list"

type_synonym matrix = "vec list"

text \<open>A centroid row; \<open>None\<close> is a row of NaN.\<close>

type_synonym centroid = "vec option"

text \<open>
  \<^verbatim>\<open>np.random.seed(n)\<close> replaces the global generator state; \<^verbatim>\<open>permutation(n)\<close>
  reads the state, returns a shuffled \<^verbatim>\<open>arange(n)\<close> and leaves a new state.
\<close>

record 'g random_state =
  seed :: "nat \<Rightarrow> 'g"
  permutation :: "'g \<Rightarrow> nat \<Rightarrow> nat list \<times> 'g"

text \<open>
  The variables of the refinement loop: the loop variable (as the number of iterations
  begun), \<^verbatim>\<open>initial_centroids\<close> and \<^verbatim>\<open>labels\<close> (\<^verbatim>\<open>labels_cosine\<close> in
  \<^verbatim>\<open>perform_clustering\<close>).
\<close>

record state =
  iteration :: nat
  initial_centroids :: "centroid list"
  labels :: "nat list"

subsection \<open>numpy\<close>

text \<open>
  \<^verbatim>\<open>np.random.choice(a, size, replace=False)\<close> for an integer \<open>a\<close>: the legacy
  generator checks the size \<open>sz\<close> and returns the first \<open>sz\<close> entries of
  \<^verbatim>\<open>permutation(a)\<close>.
\<close>

definition choice :: "'g random_state \<Rightarrow> 'g \<Rightarrow> nat \<Rightarrow> int \<Rightarrow> error + (nat list \<times> 'g)" where
  "choice np g a sz =
     (if a = 0 \<and> sz \<noteq> 0 then Inl ValueError
      else if sz > int a then Inl ValueError
      else if sz < 0 then Inl ValueError
      else (case permutation np g a of (p, g') \<Rightarrow> Inr (take (nat sz) p, g')))"

text \<open>\<^verbatim>\<open>X[idx]\<close> for an index array: an index out of range raises.\<close>

definition take_rows :: "matrix \<Rightarrow> nat list \<Rightarrow> error + matrix" where
  "take_rows X idx =
     (if list_all (\<lambda>i. i < length X) idx then Inr (map (\<lambda>i. X ! i) idx) else Inl IndexError)"

text \<open>\<^verbatim>\<open>X.shape[1]\<close>.\<close>

definition ncols :: "matrix \<Rightarrow> nat" where
  "ncols X = (case X of [] \<Rightarrow> 0 | r # _ \<Rightarrow> length r)"

text \<open>
  \<^verbatim>\<open>np.argmin\<close> and \<^verbatim>\<open>np.argmax\<close> of a one-dimensional array without NaN: the
  index of the first occurrence of the extremum. Both are only applied to non-empty
  arrays here (a distance row has one entry per centroid, and the distance computation
  has rejected an empty centroid array before; there are nine scores).
\<close>

fun argmin_from :: "real list \<Rightarrow> nat \<Rightarrow> real \<Rightarrow> nat \<Rightarrow> nat" where
  "argmin_from [] i b bi = bi"
| "argmin_from (d # ds) i b bi =
     (if d < b then argmin_from ds (Suc i) d i else argmin_from ds (Suc i) b bi)"

definition argmin :: "real list \<Rightarrow> nat" where
  "argmin ds = (case ds of [] \<Rightarrow> 0 | d # ds' \<Rightarrow> argmin_from ds' 1 d 0)"

fun argmax_from :: "real list \<Rightarrow> nat \<Rightarrow> real \<Rightarrow> nat \<Rightarrow> nat" where
  "argmax_from [] i b bi = bi"
| "argmax_from (d # ds) i b bi =
     (if b < d then argmax_from ds (Suc i) d i else argmax_from ds (Suc i) b bi)"

definition argmax :: "real list \<Rightarrow> nat" where
  "argmax ds = (case ds of [] \<Rightarrow> 0 | d # ds' \<Rightarrow> argmax_from ds' 1 d 0)"

text \<open>\<^verbatim>\<open>X[labels == j]\<close>: the rows whose label is \<open>j\<close>, in order.\<close>

definition select_rows :: "matrix \<Rightarrow> nat list \<Rightarrow> nat \<Rightarrow> matrix" where
  "select_rows X labs j = map fst (filter (\<lambda>(x, l). l = j) (zip X labs))"

text \<open>
  \<^verbatim>\<open>.mean(axis=0)\<close> of an array with \<open>D\<close> columns: the column sums divided by the
  number of rows; for no rows, a row of NaN (and a warning).
\<close>

definition mean_axis0 :: "nat \<Rightarrow> matrix \<Rightarrow> centroid" where
  "mean_axis0 D rs =
     (if rs = [] then None
      else Some (map (\<lambda>s. s / real (length rs)) (foldl (map2 (+)) (replicate D 0) rs)))"

text \<open>
  \<^verbatim>\<open>np.all(A == B)\<close> for two centroid arrays of one shape: every entry equal. NaN is
  equal to nothing, itself included.
\<close>

definition np_all_eq :: "centroid list \<Rightarrow> centroid list \<Rightarrow> bool" where
  "np_all_eq A B =
     list_all2 (\<lambda>a b. case a of None \<Rightarrow> False
                       | Some u \<Rightarrow> (case b of None \<Rightarrow> False | Some v \<Rightarrow> u = v)) A B"

subsection \<open>scikit-learn: cosine distances\<close>

definition row_norm :: "vec \<Rightarrow> real" where
  "row_norm v = sqrt (sum_list (map (\<lambda>a. a * a) v))"

text \<open>\<^verbatim>\<open>normalize\<close>: a row is divided by its norm, a zero norm being replaced by 1.\<close>

definition handle_zeros_in_scale :: "real \<Rightarrow> real" where
  "handle_zeros_in_scale s = (if s = 0 then 1 else s)"

definition normalize_row :: "vec \<Rightarrow> vec" where
  "normalize_row v = map (\<lambda>a. a / handle_zeros_in_scale (row_norm v)) v"

definition dot :: "vec \<Rightarrow> vec \<Rightarrow> real" where
  "dot u v = sum_list (map2 (*) u v)"

definition cosine_similarity :: "vec \<Rightarrow> vec \<Rightarrow> real" where
  "cosine_similarity x y = dot (normalize_row x) (normalize_row y)"

definition clip :: "real \<Rightarrow> real \<Rightarrow> real \<Rightarrow> real" where
  "clip lo hi a = min hi (max lo a)"

text \<open>One entry of \<^verbatim>\<open>cosine_distances\<close>: \<^verbatim>\<open>S *= -1; S += 1; np.clip(S, 0, 2)\<close>.\<close>

definition cosine_distance :: "vec \<Rightarrow> vec \<Rightarrow> real" where
  "cosine_distance x y = clip 0 2 (cosine_similarity x y * (- 1) + 1)"

text \<open>
  \<^verbatim>\<open>cosine_distances(X, Y)\<close>: input validation rejects an array with no row or no
  column and an array holding NaN; then one distance for each row of \<open>X\<close> and each row
  of \<open>Y\<close>.
\<close>

definition cosine_distances :: "matrix \<Rightarrow> centroid list \<Rightarrow> error + real list list" where
  "cosine_distances X Y =
     (if X = [] \<or> Y = [] \<or> ncols X = 0 then Inl ValueError
      else (case those Y of
              None \<Rightarrow> Inl ValueError
            | Some cs \<Rightarrow> Inr (map (\<lambda>x. map (\<lambda>c. cosine_distance x c) cs) X)))"

subsection \<open>The two functions\<close>

text \<open>
  The list comprehension of lines 64 and 79:
  \<^verbatim>\<open>np.array([X[labels == j].mean(axis=0) for j in range(k)])\<close>.
\<close>

definition new_centroids :: "matrix \<Rightarrow> nat list \<Rightarrow> nat \<Rightarrow> centroid list" where
  "new_centroids X labs k = map (\<lambda>j. mean_axis0 (ncols X) (select_rows X labs j)) [0..<k]"

text \<open>
  The loop of \<^verbatim>\<open>perform_clustering\<close>, lines 76 to 82; the first argument is the
  number of iterations \<^verbatim>\<open>range(100)\<close> has left.
\<close>

fun pc_loop :: "nat \<Rightarrow> matrix \<Rightarrow> nat \<Rightarrow> state \<Rightarrow> error + state" where
  "pc_loop 0 X best_k s = Inr s"
| "pc_loop (Suc n) X best_k s =
     (case cosine_distances X (initial_centroids s) of
        Inl e \<Rightarrow> Inl e
      | Inr distances \<Rightarrow>
          if np_all_eq (initial_centroids s) (new_centroids X (map argmin distances) best_k)
          then Inr \<lparr>iteration = Suc (iteration s),
                    initial_centroids = initial_centroids s,
                    labels = map argmin distances\<rparr>
          else pc_loop n X best_k
                 \<lparr>iteration = Suc (iteration s),
                  initial_centroids = new_centroids X (map argmin distances) best_k,
                  labels = map argmin distances\<rparr>)"

text \<open>The state in which a loop starts: no iteration begun, \<^verbatim>\<open>labels\<close> not yet bound.\<close>

definition start :: "matrix \<Rightarrow> state" where
  "start C = \<lparr>iteration = 0, initial_centroids = map Some C, labels = []\<rparr>"

text \<open>
  \<^verbatim>\<open>perform_clustering(X, best_k)\<close>, from a generator state \<open>g\<close>: the labels and
  the generator state it leaves.
\<close>

definition perform_clustering ::
  "'g random_state \<Rightarrow> 'g \<Rightarrow> matrix \<Rightarrow> int \<Rightarrow> error + (nat list \<times> 'g)" where
  "perform_clustering np g X best_k =
     (case choice np (seed np 42) (length X) best_k of
        Inl e \<Rightarrow> Inl e
      | Inr (idx, g') \<Rightarrow>
          (case take_rows X idx of
             Inl e \<Rightarrow> Inl e
           | Inr C \<Rightarrow>
               (case pc_loop 100 X (nat best_k) (start C) of
                  Inl e \<Rightarrow> Inl e
                | Inr s \<Rightarrow> Inr (labels s, g'))))"

text \<open>The inner loop of \<^verbatim>\<open>find_optimal_clusters\<close>, lines 61 to 67.\<close>

fun foc_loop :: "nat \<Rightarrow> matrix \<Rightarrow> nat \<Rightarrow> state \<Rightarrow> error + state" where
  "foc_loop 0 X k s = Inr s"
| "foc_loop (Suc n) X k s =
     (case cosine_distances X (initial_centroids s) of
        Inl e \<Rightarrow> Inl e
      | Inr distances \<Rightarrow>
          if np_all_eq (initial_centroids s) (new_centroids X (map argmin distances) k)
          then Inr \<lparr>iteration = Suc (iteration s),
                    initial_centroids = initial_centroids s,
                    labels = map argmin distances\<rparr>
          else foc_loop n X k
                 \<lparr>iteration = Suc (iteration s),
                  initial_centroids = new_centroids X (map argmin distances) k,
                  labels = map argmin distances\<rparr>)"

text \<open>
  One pass of the outer loop, lines 59 to 68, for one \<open>k\<close>: the labels, their
  silhouette score and the generator state left.
\<close>

definition trial ::
  "'g random_state \<Rightarrow> (matrix \<Rightarrow> nat list \<Rightarrow> error + real) \<Rightarrow> 'g \<Rightarrow> matrix \<Rightarrow> int
     \<Rightarrow> error + (nat list \<times> real \<times> 'g)" where
  "trial np silhouette_score g X k =
     (case choice np (seed np 42) (length X) k of
        Inl e \<Rightarrow> Inl e
      | Inr (idx, g') \<Rightarrow>
          (case take_rows X idx of
             Inl e \<Rightarrow> Inl e
           | Inr C \<Rightarrow>
               (case foc_loop 100 X (nat k) (start C) of
                  Inl e \<Rightarrow> Inl e
                | Inr s \<Rightarrow>
                    (case silhouette_score X (labels s) of
                       Inl e \<Rightarrow> Inl e
                     | Inr sc \<Rightarrow> Inr (labels s, sc, g')))))"

text \<open>The outer loop over \<open>K\<close>, appending to \<^verbatim>\<open>sil_scores\<close>.\<close>

fun trials ::
  "'g random_state \<Rightarrow> (matrix \<Rightarrow> nat list \<Rightarrow> error + real) \<Rightarrow> matrix \<Rightarrow> int list \<Rightarrow> 'g
     \<Rightarrow> real list \<Rightarrow> error + (real list \<times> 'g)" where
  "trials np silhouette_score X [] g sil_scores = Inr (sil_scores, g)"
| "trials np silhouette_score X (k # ks) g sil_scores =
     (case trial np silhouette_score g X k of
        Inl e \<Rightarrow> Inl e
      | Inr (labs, sc, g') \<Rightarrow> trials np silhouette_score X ks g' (sil_scores @ [sc]))"

text \<open>\<^verbatim>\<open>K = range(2, 11)\<close>.\<close>

definition K :: "int list" where
  "K = [2..10]"

definition find_optimal_clusters ::
  "'g random_state \<Rightarrow> (matrix \<Rightarrow> nat list \<Rightarrow> error + real) \<Rightarrow> 'g \<Rightarrow> matrix
     \<Rightarrow> error + (int \<times> 'g)" where
  "find_optimal_clusters np silhouette_score g X =
     (case trials np silhouette_score X K g [] of
        Inl e \<Rightarrow> Inl e
      | Inr (sil_scores, g') \<Rightarrow> Inr (K ! argmax sil_scores, g'))"

subsection \<open>The loop with the arithmetic of the distances left open\<close>

text \<open>
  \<^verbatim>\<open>cosine_distances(X, Y)\<close> with the same validation, where \<open>entry X cs i j\<close> is
  the value that the arithmetic in use computes for row \<open>i\<close> of \<open>X\<close> and row \<open>j\<close> of
  the centroids \<open>cs\<close>: float64 in the code, \<open>cosine_distance (X ! i) (cs ! j)\<close> in
  exact arithmetic.
\<close>

definition cosine_distances_with ::
  "(matrix \<Rightarrow> vec list \<Rightarrow> nat \<Rightarrow> nat \<Rightarrow> real) \<Rightarrow> matrix \<Rightarrow> centroid list
     \<Rightarrow> error + real list list" where
  "cosine_distances_with entry X Y =
     (if X = [] \<or> Y = [] \<or> ncols X = 0 then Inl ValueError
      else (case those Y of
              None \<Rightarrow> Inl ValueError
            | Some cs \<Rightarrow>
                Inr (map (\<lambda>i. map (\<lambda>j. entry X cs i j) [0..<length cs]) [0..<length X])))"

text \<open>
  The loop of lines 61 to 67 and of lines 76 to 82 over these distances. With the exact
  distances it is \<open>pc_loop\<close> and \<open>foc_loop\<close> (\<open>loop_with_exact\<close> below).
\<close>

fun loop_with ::
  "(matrix \<Rightarrow> vec list \<Rightarrow> nat \<Rightarrow> nat \<Rightarrow> real) \<Rightarrow> nat \<Rightarrow> matrix \<Rightarrow> nat \<Rightarrow> state
     \<Rightarrow> error + state" where
  "loop_with entry 0 X k s = Inr s"
| "loop_with entry (Suc n) X k s =
     (case cosine_distances_with entry X (initial_centroids s) of
        Inl e \<Rightarrow> Inl e
      | Inr distances \<Rightarrow>
          if np_all_eq (initial_centroids s) (new_centroids X (map argmin distances) k)
          then Inr \<lparr>iteration = Suc (iteration s),
                    initial_centroids = initial_centroids s,
                    labels = map argmin distances\<rparr>
          else loop_with entry n X k
                 \<lparr>iteration = Suc (iteration s),
                  initial_centroids = new_centroids X (map argmin distances) k,
                  labels = map argmin distances\<rparr>)"

subsection \<open>Measures used in the statements\<close>

text \<open>The sum of the squares of a row.\<close>

definition sumsq :: "vec \<Rightarrow> real" where
  "sumsq v = sum_list (map (\<lambda>a. a * a) v)"


subsection \<open>Concrete inputs\<close>

text \<open>
  A generator for the examples: seeding stores the seed, and a permutation is the
  identity and counts the state up.
\<close>

definition np_id :: "nat random_state" where
  "np_id = \<lparr>seed = (\<lambda>n. n), permutation = (\<lambda>g n. ([0..<n], Suc g))\<rparr>"

text \<open>The \<open>i\<close>-th unit vector of dimension 10.\<close>

definition basis :: "nat \<Rightarrow> vec" where
  "basis i = map (\<lambda>j. if j = i then 1 else 0) [0..<10]"

text \<open>Eleven rows: the ten unit vectors and the first of them once more.\<close>

definition X11 :: matrix where
  "X11 = map basis [0..<10] @ [basis 0]"

text \<open>
  A score for the examples, in the place of \<^verbatim>\<open>silhouette_score\<close>: the number of
  distinct labels, capped at 5.
\<close>

definition capped_score :: "matrix \<Rightarrow> nat list \<Rightarrow> error + real" where
  "capped_score X labs = Inr (real (min 5 (length (remdups labs))))"



section \<open>Properties\<close>

subsection \<open>The first minimum\<close>

lemma argmin_from_spec:
  assumes "bi < length pre" "i = length pre" "b = pre ! bi"
    and "\<forall>j<length pre. b \<le> pre ! j" and "\<forall>j<bi. b < pre ! j"
  shows "argmin_from ds i b bi < length (pre @ ds) \<and>
         (\<forall>j<length (pre @ ds). (pre @ ds) ! argmin_from ds i b bi \<le> (pre @ ds) ! j) \<and>
         (\<forall>j<argmin_from ds i b bi. (pre @ ds) ! argmin_from ds i b bi < (pre @ ds) ! j)"
  using assms
proof (induction ds arbitrary: pre i b bi)
  case Nil
  then show ?case by simp
next
  case (Cons d ds)
  show ?case
  proof (cases "d < b")
    case True
    have "argmin_from ds (Suc i) d i < length ((pre @ [d]) @ ds) \<and>
         (\<forall>j<length ((pre @ [d]) @ ds). ((pre @ [d]) @ ds) ! argmin_from ds (Suc i) d i \<le> ((pre @ [d]) @ ds) ! j) \<and>
         (\<forall>j<argmin_from ds (Suc i) d i. ((pre @ [d]) @ ds) ! argmin_from ds (Suc i) d i < ((pre @ [d]) @ ds) ! j)"
    proof (rule Cons.IH)
      show "i < length (pre @ [d])" using Cons.prems by simp
      show "Suc i = length (pre @ [d])" using Cons.prems by simp
      show "d = (pre @ [d]) ! i" using Cons.prems by simp
      have below: "d < pre ! j" if "j < length pre" for j
      proof -
        have "b \<le> pre ! j" using Cons.prems(4) that by blast
        with True show ?thesis by simp
      qed
      show "\<forall>j<length (pre @ [d]). d \<le> (pre @ [d]) ! j"
        using below by (auto simp: nth_append less_Suc_eq less_imp_le)
      show "\<forall>j<i. d < (pre @ [d]) ! j"
        using below Cons.prems(2) by (auto simp: nth_append)
    qed
    with True show ?thesis by simp
  next
    case False
    have "argmin_from ds (Suc i) b bi < length ((pre @ [d]) @ ds) \<and>
         (\<forall>j<length ((pre @ [d]) @ ds). ((pre @ [d]) @ ds) ! argmin_from ds (Suc i) b bi \<le> ((pre @ [d]) @ ds) ! j) \<and>
         (\<forall>j<argmin_from ds (Suc i) b bi. ((pre @ [d]) @ ds) ! argmin_from ds (Suc i) b bi < ((pre @ [d]) @ ds) ! j)"
    proof (rule Cons.IH)
      show "bi < length (pre @ [d])" using Cons.prems by simp
      show "Suc i = length (pre @ [d])" using Cons.prems by simp
      show "b = (pre @ [d]) ! bi" using Cons.prems by (simp add: nth_append)
      show "\<forall>j<length (pre @ [d]). b \<le> (pre @ [d]) ! j"
        using Cons.prems False by (auto simp: nth_append less_Suc_eq)
      show "\<forall>j<bi. b < (pre @ [d]) ! j"
        using Cons.prems by (auto simp: nth_append)
    qed
    with False show ?thesis by simp
  qed
qed

lemma argmin_spec:
  assumes "ds \<noteq> []"
  shows "argmin ds < length ds \<and> (\<forall>j<length ds. ds ! argmin ds \<le> ds ! j) \<and>
         (\<forall>j<argmin ds. ds ! argmin ds < ds ! j)"
proof -
  obtain d ds' where ds: "ds = d # ds'" using assms by (cases ds) auto
  have "argmin_from ds' 1 d 0 < length ([d] @ ds') \<and>
         (\<forall>j<length ([d] @ ds'). ([d] @ ds') ! argmin_from ds' 1 d 0 \<le> ([d] @ ds') ! j) \<and>
         (\<forall>j<argmin_from ds' 1 d 0. ([d] @ ds') ! argmin_from ds' 1 d 0 < ([d] @ ds') ! j)"
    by (rule argmin_from_spec) simp_all
  then show ?thesis by (simp add: ds argmin_def)
qed


subsection \<open>Cosine similarity and distance\<close>

lemma sumsq_nonneg: "0 \<le> sumsq v"
  unfolding sumsq_def by (induction v) auto

lemma dot_bound: "2 * dot u v \<le> sumsq u + sumsq v"
proof (induction u arbitrary: v)
  case Nil
  show ?case using sumsq_nonneg [of v] by (simp add: dot_def sumsq_def)
next
  case (Cons a u)
  show ?case
  proof (cases v)
    case Nil
    then show ?thesis using sumsq_nonneg [of "a # u"] by (simp add: dot_def sumsq_def)
  next
    case (Cons b w)
    have "2 * a * b \<le> a * a + b * b"
      using sum_squares_bound [of a b] by (simp add: power2_eq_square)
    moreover have "2 * dot u w \<le> sumsq u + sumsq w" by (rule Cons.IH)
    ultimately show ?thesis using Cons by (simp add: dot_def sumsq_def algebra_simps)
  qed
qed

lemma dot_uminus: "dot (map uminus u) v = - dot u v"
proof (induction u arbitrary: v)
  case Nil
  show ?case by (simp add: dot_def)
next
  case (Cons a u)
  then show ?case by (cases v) (simp_all add: dot_def)
qed

lemma sumsq_uminus: "sumsq (map uminus u) = sumsq u"
  unfolding sumsq_def by (induction u) auto

lemma dot_bound_neg: "- (2 * dot u v) \<le> sumsq u + sumsq v"
  using dot_bound [of "map uminus u" v] by (simp add: dot_uminus sumsq_uminus)

lemma sumsq_scale: "sumsq (map (\<lambda>a. a / n) v) = sumsq v / (n * n)"
  unfolding sumsq_def by (induction v) (auto simp: add_divide_distrib)

lemma sumsq_normalize_row: "sumsq (normalize_row v) \<le> 1"
proof (cases "sumsq v = 0")
  case True
  then show ?thesis
    by (simp add: normalize_row_def sumsq_scale)
next
  case False
  then have pos: "0 < sumsq v" using sumsq_nonneg [of v] by simp
  have "row_norm v * row_norm v = sumsq v"
    using pos by (simp add: row_norm_def sumsq_def)
  moreover have "row_norm v \<noteq> 0" using pos by (simp add: row_norm_def sumsq_def)
  ultimately show ?thesis
    by (simp add: normalize_row_def sumsq_scale handle_zeros_in_scale_def)
qed

lemma cosine_similarity_bounds: "- 1 \<le> cosine_similarity x y \<and> cosine_similarity x y \<le> 1"
  using dot_bound [of "normalize_row x" "normalize_row y"]
    dot_bound_neg [of "normalize_row x" "normalize_row y"]
    sumsq_normalize_row [of x] sumsq_normalize_row [of y]
  by (simp add: cosine_similarity_def)

lemma cosine_distance_eq: "cosine_distance x y = 1 - cosine_similarity x y"
  using cosine_similarity_bounds [of x y] by (simp add: cosine_distance_def clip_def)


lemma dot_scale: "dot (map (\<lambda>a. a / m) u) (map (\<lambda>a. a / n) v) = dot u v / (m * n)"
proof (induction u arbitrary: v)
  case Nil
  show ?case by (simp add: dot_def)
next
  case (Cons a u)
  show ?case
  proof (cases v)
    case Nil
    then show ?thesis by (simp add: dot_def)
  next
    case (Cons b w)
    have "dot (map (\<lambda>a. a / m) u) (map (\<lambda>a. a / n) w) = dot u w / (m * n)" by (rule Cons.IH)
    then show ?thesis using Cons by (simp add: dot_def add_divide_distrib)
  qed
qed

lemma cosine_similarity_eq:
  "cosine_similarity x y =
     dot x y / (handle_zeros_in_scale (row_norm x) * handle_zeros_in_scale (row_norm y))"
  by (simp add: cosine_similarity_def normalize_row_def dot_scale)

lemma handle_zeros_pos: "0 < handle_zeros_in_scale (row_norm v)"
proof -
  have "0 \<le> row_norm v" by (simp add: row_norm_def sumsq_nonneg [unfolded sumsq_def])
  then show ?thesis by (simp add: handle_zeros_in_scale_def)
qed

lemma cosine_distance_orth: "dot x y = 0 \<Longrightarrow> cosine_distance x y = 1"
  by (simp add: cosine_distance_eq cosine_similarity_eq)

lemma cosine_distance_acute: "0 < dot x y \<Longrightarrow> cosine_distance x y < 1"
  using handle_zeros_pos [of x] handle_zeros_pos [of y]
  by (simp add: cosine_distance_eq cosine_similarity_eq)

subsection \<open>The distance matrix\<close>

lemma those_length: "those xs = Some ys \<Longrightarrow> length ys = length xs"
  by (induction xs arbitrary: ys) (auto split: option.splits)

lemma those_nth: "those xs = Some ys \<Longrightarrow> i < length xs \<Longrightarrow> xs ! i = Some (ys ! i)"
proof (induction xs arbitrary: ys i)
  case Nil
  then show ?case by simp
next
  case (Cons a xs)
  then show ?case by (cases i) (auto split: option.splits)
qed

lemma those_None: "None \<in> set xs \<Longrightarrow> those xs = None"
  by (induction xs) (auto split: option.splits)

lemma cosine_distances_Inr:
  assumes "cosine_distances X C = Inr D"
  shows "X \<noteq> [] \<and> C \<noteq> [] \<and>
         (\<exists>cs. those C = Some cs \<and> D = map (\<lambda>x. map (cosine_distance x) cs) X)"
  using assms by (auto simp: cosine_distances_def split: if_splits option.splits)

lemma cosine_distances_error: "cosine_distances X C = Inl e \<Longrightarrow> e = ValueError"
  by (auto simp: cosine_distances_def split: if_splits option.splits)

lemma cosine_distances_nan: "None \<in> set C \<Longrightarrow> cosine_distances X C = Inl ValueError"
  by (simp add: cosine_distances_def those_None)

lemma assigned_in_range:
  assumes "cosine_distances X C = Inr D" and "i < length X"
  shows "map argmin D ! i < length C"
proof -
  obtain cs where cs: "those C = Some cs" "D = map (\<lambda>x. map (cosine_distance x) cs) X"
    and ne: "C \<noteq> []"
    using cosine_distances_Inr [OF assms(1)] by blast
  have len: "length cs = length C" using cs(1) by (rule those_length)
  then have "map (cosine_distance (X ! i)) cs \<noteq> []" using ne by auto
  then have "argmin (map (cosine_distance (X ! i)) cs) < length (map (cosine_distance (X ! i)) cs)"
    using argmin_spec by blast
  then show ?thesis using assms(2) cs(2) len by simp
qed

lemma length_new_centroids: "length (new_centroids X labs k) = k"
  by (simp add: new_centroids_def)

subsection \<open>The refinement loop\<close>

lemma pc_loop_labels:
  assumes "pc_loop n X k s = Inr s'" and "0 < n" and "length (initial_centroids s) \<le> k"
  shows "\<exists>C D. length C \<le> k \<and> cosine_distances X C = Inr D \<and> labels s' = map argmin D"
  using assms
proof (induction n arbitrary: s)
  case 0
  then show ?case by simp
next
  case (Suc n)
  obtain D where D: "cosine_distances X (initial_centroids s) = Inr D"
    using Suc.prems(1) by (cases "cosine_distances X (initial_centroids s)") auto
  let ?labs = "map argmin D"
  let ?C' = "new_centroids X ?labs k"
  show ?case
  proof (cases "np_all_eq (initial_centroids s) ?C'")
    case True
    then have "s' = \<lparr>iteration = Suc (iteration s), initial_centroids = initial_centroids s,
                      labels = ?labs\<rparr>"
      using Suc.prems(1) D by simp
    then show ?thesis using D Suc.prems(3) by auto
  next
    case False
    then have rec: "pc_loop n X k \<lparr>iteration = Suc (iteration s), initial_centroids = ?C',
                      labels = ?labs\<rparr> = Inr s'"
      using Suc.prems(1) D by simp
    show ?thesis
    proof (cases n)
      case 0
      then have "labels s' = ?labs" using rec by auto
      then show ?thesis using D Suc.prems(3) by auto
    next
      case (Suc m)
      then show ?thesis using Suc.IH [OF rec] by (simp add: length_new_centroids)
    qed
  qed
qed

lemma foc_loop_eq_pc_loop: "foc_loop n X k s = pc_loop n X k s"
  by (induction n arbitrary: s) (auto split: sum.splits)

lemma choice_Inr:
  assumes "choice np g a sz = Inr (idx, g')"
  shows "0 \<le> sz \<and> sz \<le> int a \<and> length idx \<le> nat sz"
  using assms by (auto simp: choice_def split: if_splits prod.splits)

lemma take_rows_length: "take_rows X idx = Inr C \<Longrightarrow> length C = length idx"
  by (auto simp: take_rows_def split: if_splits)



subsection \<open>Running the code on concrete inputs\<close>

text \<open>
  The loops are unfolded one iteration at a time. A distance is left folded: between
  orthogonal rows it is 1, and between rows with a positive inner product it is below 1,
  which decides every comparison of the examples without computing a square root.
\<close>

lemma pc_loop_numeral:
  "pc_loop (numeral n) X best_k s =
     (case cosine_distances X (initial_centroids s) of
        Inl e \<Rightarrow> Inl e
      | Inr distances \<Rightarrow>
          if np_all_eq (initial_centroids s) (new_centroids X (map argmin distances) best_k)
          then Inr \<lparr>iteration = Suc (iteration s),
                    initial_centroids = initial_centroids s,
                    labels = map argmin distances\<rparr>
          else pc_loop (pred_numeral n) X best_k
                 \<lparr>iteration = Suc (iteration s),
                  initial_centroids = new_centroids X (map argmin distances) best_k,
                  labels = map argmin distances\<rparr>)"
  by (simp add: numeral_eq_Suc)

lemma cosine_distance_less_1: "0 < dot x y \<Longrightarrow> (cosine_distance x y < 1) = True"
  using cosine_distance_acute by simp

lemma cosine_distance_greater_1: "0 < dot x y \<Longrightarrow> (1 < cosine_distance x y) = False"
  using cosine_distance_acute [of x y] by simp

lemmas run_simps =
  perform_clustering_def trial_def choice_def take_rows_def start_def np_id_def
  cosine_distances_def ncols_def cosine_distance_orth cosine_distance_less_1
  cosine_distance_greater_1 dot_def argmin_def new_centroids_def mean_axis0_def
  select_rows_def np_all_eq_def upt_rec pc_loop_numeral foc_loop_eq_pc_loop

subsection \<open>The first maximum and the outer loop\<close>

lemma argmax_from_spec:
  assumes "bi < length pre" "i = length pre" "b = pre ! bi"
    and "\<forall>j<length pre. pre ! j \<le> b" and "\<forall>j<bi. pre ! j < b"
  shows "argmax_from ds i b bi < length (pre @ ds) \<and>
         (\<forall>j<length (pre @ ds). (pre @ ds) ! j \<le> (pre @ ds) ! argmax_from ds i b bi) \<and>
         (\<forall>j<argmax_from ds i b bi. (pre @ ds) ! j < (pre @ ds) ! argmax_from ds i b bi)"
  using assms
proof (induction ds arbitrary: pre i b bi)
  case Nil
  then show ?case by simp
next
  case (Cons d ds)
  show ?case
  proof (cases "b < d")
    case True
    have "argmax_from ds (Suc i) d i < length ((pre @ [d]) @ ds) \<and>
         (\<forall>j<length ((pre @ [d]) @ ds). ((pre @ [d]) @ ds) ! j \<le> ((pre @ [d]) @ ds) ! argmax_from ds (Suc i) d i) \<and>
         (\<forall>j<argmax_from ds (Suc i) d i. ((pre @ [d]) @ ds) ! j < ((pre @ [d]) @ ds) ! argmax_from ds (Suc i) d i)"
    proof (rule Cons.IH)
      show "i < length (pre @ [d])" using Cons.prems by simp
      show "Suc i = length (pre @ [d])" using Cons.prems by simp
      show "d = (pre @ [d]) ! i" using Cons.prems by simp
      have above: "pre ! j < d" if "j < length pre" for j
      proof -
        have "pre ! j \<le> b" using Cons.prems(4) that by blast
        with True show ?thesis by simp
      qed
      show "\<forall>j<length (pre @ [d]). (pre @ [d]) ! j \<le> d"
        using above by (auto simp: nth_append less_Suc_eq less_imp_le)
      show "\<forall>j<i. (pre @ [d]) ! j < d"
        using above Cons.prems(2) by (auto simp: nth_append)
    qed
    with True show ?thesis by simp
  next
    case False
    have "argmax_from ds (Suc i) b bi < length ((pre @ [d]) @ ds) \<and>
         (\<forall>j<length ((pre @ [d]) @ ds). ((pre @ [d]) @ ds) ! j \<le> ((pre @ [d]) @ ds) ! argmax_from ds (Suc i) b bi) \<and>
         (\<forall>j<argmax_from ds (Suc i) b bi. ((pre @ [d]) @ ds) ! j < ((pre @ [d]) @ ds) ! argmax_from ds (Suc i) b bi)"
    proof (rule Cons.IH)
      show "bi < length (pre @ [d])" using Cons.prems by simp
      show "Suc i = length (pre @ [d])" using Cons.prems by simp
      show "b = (pre @ [d]) ! bi" using Cons.prems by (simp add: nth_append)
      show "\<forall>j<length (pre @ [d]). (pre @ [d]) ! j \<le> b"
        using Cons.prems False by (auto simp: nth_append less_Suc_eq)
      show "\<forall>j<bi. (pre @ [d]) ! j < b"
        using Cons.prems by (auto simp: nth_append)
    qed
    with False show ?thesis by simp
  qed
qed

lemma argmax_spec:
  assumes "ds \<noteq> []"
  shows "argmax ds < length ds \<and> (\<forall>j<length ds. ds ! j \<le> ds ! argmax ds) \<and>
         (\<forall>j<argmax ds. ds ! j < ds ! argmax ds)"
proof -
  obtain d ds' where ds: "ds = d # ds'" using assms by (cases ds) auto
  have "argmax_from ds' 1 d 0 < length ([d] @ ds') \<and>
         (\<forall>j<length ([d] @ ds'). ([d] @ ds') ! j \<le> ([d] @ ds') ! argmax_from ds' 1 d 0) \<and>
         (\<forall>j<argmax_from ds' 1 d 0. ([d] @ ds') ! j < ([d] @ ds') ! argmax_from ds' 1 d 0)"
    by (rule argmax_from_spec) simp_all
  then show ?thesis by (simp add: ds argmax_def)
qed

lemma trial_any_state: "trial np sil g X k = trial np sil g0 X k"
  by (simp add: trial_def)

lemma trials_spec:
  assumes "trials np sil X ks g acc = Inr (scores, g')"
  shows "length scores = length acc + length ks \<and> take (length acc) scores = acc \<and>
         (\<forall>i<length ks. \<exists>labs gb.
            trial np sil g0 X (ks ! i) = Inr (labs, scores ! (length acc + i), gb))"
  using assms
proof (induction ks arbitrary: g acc)
  case Nil
  then show ?case by auto
next
  case (Cons k ks)
  obtain labs sc g1 where t: "trial np sil g X k = Inr (labs, sc, g1)"
    and rec: "trials np sil X ks g1 (acc @ [sc]) = Inr (scores, g')"
    using Cons.prems by (auto split: sum.splits)
  have ih: "length scores = length (acc @ [sc]) + length ks \<and>
        take (length (acc @ [sc])) scores = acc @ [sc] \<and>
         (\<forall>i<length ks. \<exists>labs gb.
            trial np sil g0 X (ks ! i) = Inr (labs, scores ! (length (acc @ [sc]) + i), gb))"
    by (rule Cons.IH [OF rec])
  have len: "length scores = length acc + length (k # ks)" using ih by simp
  have tk: "take (Suc (length acc)) scores = acc @ [sc]" using ih by simp
  have "take (length acc) (take (Suc (length acc)) scores) = take (length acc) (acc @ [sc])"
    using tk by simp
  then have tk': "take (length acc) scores = acc" by simp
  have "(take (Suc (length acc)) scores) ! length acc = (acc @ [sc]) ! length acc"
    using tk by simp
  then have at: "scores ! length acc = sc" by simp
  have "\<exists>labs gb. trial np sil g0 X ((k # ks) ! i) = Inr (labs, scores ! (length acc + i), gb)"
    if "i < length (k # ks)" for i
  proof (cases i)
    case 0
    then show ?thesis using t at trial_any_state [of np sil g0 X k g] by auto
  next
    case (Suc m)
    then have "m < length ks" using that by simp
    then obtain labs' gb where
      "trial np sil g0 X (ks ! m) = Inr (labs', scores ! (length (acc @ [sc]) + m), gb)"
      using ih by blast
    then show ?thesis using Suc by auto
  qed
  then show ?case using len tk' by blast
qed

lemma K_eq: "K = [2, 3, 4, 5, 6, 7, 8, 9, 10]"
  by (simp add: K_def upto_rec1)

lemma K_nth: "i < 9 \<Longrightarrow> K ! i = 2 + int i"
  unfolding K_def by (rule nth_upto) simp

lemma length_K: "length K = 9"
  by (simp add: K_eq)

lemma best_k_spec:
  assumes "find_optimal_clusters np silhouette_score g X = Inr (best_k, g')"
  shows "2 \<le> best_k \<and> best_k \<le> 10 \<and>
         (\<exists>labs sc gb. trial np silhouette_score g X best_k = Inr (labs, sc, gb) \<and>
            (\<forall>k. 2 \<le> k \<and> k \<le> 10 \<longrightarrow>
               (\<exists>labs' sc' gb'. trial np silhouette_score g X k = Inr (labs', sc', gb') \<and>
                  sc' \<le> sc \<and> (sc' = sc \<longrightarrow> best_k \<le> k))))"
proof -
  obtain scores where tr: "trials np silhouette_score X K g [] = Inr (scores, g')"
    and best: "best_k = K ! argmax scores"
    using assms by (auto simp: find_optimal_clusters_def split: sum.splits)
  have spec: "length scores = length ([] :: real list) + length K \<and>
         take (length ([] :: real list)) scores = [] \<and>
         (\<forall>i<length K. \<exists>labs gb.
            trial np silhouette_score g X (K ! i) =
              Inr (labs, scores ! (length ([] :: real list) + i), gb))"
    by (rule trials_spec [OF tr])
  have len: "length scores = 9" using spec by (simp add: length_K)
  have each: "\<exists>labs gb. trial np silhouette_score g X (K ! i) = Inr (labs, scores ! i, gb)"
    if "i < 9" for i
    using spec that by (simp add: length_K)
  have "scores \<noteq> []" using len by auto
  then have am: "argmax scores < length scores \<and> (\<forall>j<length scores. scores ! j \<le> scores ! argmax scores) \<and>
         (\<forall>j<argmax scores. scores ! j < scores ! argmax scores)"
    by (rule argmax_spec)
  let ?a = "argmax scores"
  have a9: "?a < 9" using am len by simp
  have bk: "best_k = 2 + int ?a" using best K_nth [OF a9] by simp
  obtain labs gb where tb: "trial np silhouette_score g X best_k = Inr (labs, scores ! ?a, gb)"
    using each [OF a9] best by auto
  have "\<exists>labs' sc' gb'. trial np silhouette_score g X k = Inr (labs', sc', gb') \<and>
                  sc' \<le> scores ! ?a \<and> (sc' = scores ! ?a \<longrightarrow> best_k \<le> k)"
    if k: "2 \<le> k \<and> k \<le> 10" for k
  proof -
    let ?i = "nat (k - 2)"
    have i9: "?i < 9" using k by auto
    have ki: "K ! ?i = k" using K_nth [OF i9] k by simp
    obtain labs' gb' where tk: "trial np silhouette_score g X k = Inr (labs', scores ! ?i, gb')"
      using each [OF i9] ki by auto
    have le: "scores ! ?i \<le> scores ! ?a" using am i9 len by simp
    have "best_k \<le> k" if "scores ! ?i = scores ! ?a"
    proof -
      have "\<not> ?i < ?a" using am that by auto
      then show ?thesis using bk k by auto
    qed
    then show ?thesis using tk le by blast
  qed
  then show ?thesis using tb bk a9 by auto
qed

subsection \<open>Counting iterations\<close>

lemma pc_loop_iteration:
  assumes "pc_loop n X k s = Inr s'"
  shows "iteration s' \<le> iteration s + n \<and> (0 < n \<longrightarrow> iteration s < iteration s') \<and>
         (iteration s' < iteration s + n \<longrightarrow>
            np_all_eq (initial_centroids s') (new_centroids X (labels s') k))"
  using assms
proof (induction n arbitrary: s)
  case 0
  then show ?case by simp
next
  case (Suc n)
  obtain D where D: "cosine_distances X (initial_centroids s) = Inr D"
    using Suc.prems by (cases "cosine_distances X (initial_centroids s)") auto
  let ?labs = "map argmin D"
  let ?C' = "new_centroids X ?labs k"
  show ?case
  proof (cases "np_all_eq (initial_centroids s) ?C'")
    case True
    then have "s' = \<lparr>iteration = Suc (iteration s), initial_centroids = initial_centroids s,
                      labels = ?labs\<rparr>"
      using Suc.prems D by simp
    then show ?thesis using True by simp
  next
    case False
    let ?s1 = "\<lparr>iteration = Suc (iteration s), initial_centroids = ?C', labels = ?labs\<rparr>"
    have rec: "pc_loop n X k ?s1 = Inr s'"
      using Suc.prems D False by simp
    have ih: "iteration s' \<le> iteration ?s1 + n \<and> (0 < n \<longrightarrow> iteration ?s1 < iteration s') \<and>
         (iteration s' < iteration ?s1 + n \<longrightarrow>
            np_all_eq (initial_centroids s') (new_centroids X (labels s') k))"
      by (rule Suc.IH [OF rec])
    have "iteration s < iteration s'"
    proof (cases n)
      case 0
      then have "s' = ?s1" using rec by simp
      then show ?thesis by simp
    next
      case (Suc m)
      then show ?thesis using ih by simp
    qed
    then show ?thesis using ih by simp
  qed
qed

lemma pc_loop_error: "pc_loop n X k s = Inl e \<Longrightarrow> e = ValueError"
proof (induction n arbitrary: s)
  case 0
  then show ?case by simp
next
  case (Suc n)
  show ?case
  proof (cases "cosine_distances X (initial_centroids s)")
    case (Inl e')
    then show ?thesis using Suc.prems cosine_distances_error [OF Inl] by simp
  next
    case (Inr D)
    then show ?thesis using Suc.prems Suc.IH by (auto split: if_splits)
  qed
qed

subsection \<open>Empty clusters and zero rows\<close>

lemma select_rows_empty: "j \<notin> set labs \<Longrightarrow> select_rows X labs j = []"
  by (auto simp: select_rows_def filter_empty_conv dest: set_zip_rightD)

lemma new_centroids_nth:
  "j < k \<Longrightarrow> new_centroids X labs k ! j = mean_axis0 (ncols X) (select_rows X labs j)"
  by (simp add: new_centroids_def)

lemma np_all_eq_nan:
  assumes "j < length B" and "B ! j = None"
  shows "\<not> np_all_eq A B"
proof
  assume "np_all_eq A B"
  then have "length A = length B" and
    "\<forall>i<length A. (case A ! i of None \<Rightarrow> False
        | Some u \<Rightarrow> (case B ! i of None \<Rightarrow> False | Some v \<Rightarrow> u = v))"
    by (auto simp: np_all_eq_def list_all2_conv_all_nth)
  then have "case A ! j of None \<Rightarrow> False
        | Some u \<Rightarrow> (case B ! j of None \<Rightarrow> False | Some v \<Rightarrow> u = v)"
    using assms(1) by simp
  then show False using assms(2) by (simp split: option.splits)
qed


subsection \<open>Exact distances of the examples\<close>

lemma distances_unit_square:
  "cosine_distances [[1, 0], [0, 1]] [Some [1, 0], Some [0, 1]] = Inr [[0, 1], [1, 0]]"
  by (simp add: cosine_distances_def ncols_def cosine_distance_def clip_def
      cosine_similarity_def normalize_row_def row_norm_def handle_zeros_in_scale_def dot_def)

lemma distances_ones: "cosine_distances [[1], [1]] [Some [1], Some [1]] = Inr [[0, 0], [0, 0]]"
  by (simp add: cosine_distances_def ncols_def cosine_distance_def clip_def
      cosine_similarity_def normalize_row_def row_norm_def handle_zeros_in_scale_def dot_def)





subsection \<open>Comparing and bounding distances without square roots\<close>

lemma signed_square_mono:
  fixes a b :: real
  assumes "a < b"
  shows "a * \<bar>a\<bar> < b * \<bar>b\<bar>"
proof (cases "0 \<le> a")
  case True
  then have "a * a < b * b" using assms by (intro mult_strict_mono') auto
  then show ?thesis using True assms by simp
next
  case False
  then have a: "a < 0" by simp
  show ?thesis
  proof (cases "0 \<le> b")
    case True
    have "0 < a * a" using a a by (rule mult_neg_neg)
    then have "a * \<bar>a\<bar> < 0" using a by simp
    moreover have "0 \<le> b * \<bar>b\<bar>" using True by simp
    ultimately show ?thesis by simp
  next
    case False
    then have "(- b) * (- b) < (- a) * (- a)" using assms by (intro mult_strict_mono') auto
    then show ?thesis using a False by simp
  qed
qed

lemma signed_square_less: "((u :: real) < v) = (u * \<bar>u\<bar> < v * \<bar>v\<bar>)"
proof
  assume "u < v"
  then show "u * \<bar>u\<bar> < v * \<bar>v\<bar>" by (rule signed_square_mono)
next
  assume less: "u * \<bar>u\<bar> < v * \<bar>v\<bar>"
  show "u < v"
  proof (rule ccontr)
    assume "\<not> u < v"
    then have "v = u \<or> v < u" by auto
    then have "v * \<bar>v\<bar> \<le> u * \<bar>u\<bar>"
      using signed_square_mono [of v u] by auto
    then show False using less by simp
  qed
qed

lemma row_norm_sumsq: "row_norm v * row_norm v = sumsq v"
  using sumsq_nonneg [of v] by (simp add: row_norm_def sumsq_def)

lemma row_norm_pos: "0 < sumsq v \<Longrightarrow> 0 < row_norm v"
  by (simp add: row_norm_def sumsq_def)

lemma cosine_distance_quotient:
  assumes "0 < sumsq c"
  shows "cosine_distance x c =
           1 - dot x c / row_norm c / handle_zeros_in_scale (row_norm x)"
  using row_norm_pos [OF assms]
  by (simp add: cosine_distance_eq cosine_similarity_eq handle_zeros_in_scale_def)

text \<open>Which of two centroids is nearer, decided without a square root.\<close>

lemma cosine_distance_less_iff:
  assumes "0 < sumsq c1" and "0 < sumsq c2"
  shows "(cosine_distance x c1 < cosine_distance x c2) =
         (dot x c2 * \<bar>dot x c2\<bar> * sumsq c1 < dot x c1 * \<bar>dot x c1\<bar> * sumsq c2)"
proof -
  let ?n1 = "row_norm c1" and ?n2 = "row_norm c2"
  let ?h = "handle_zeros_in_scale (row_norm x)"
  have n1: "0 < ?n1" and n2: "0 < ?n2" using assms by (simp_all add: row_norm_pos)
  have h: "0 < ?h" by (rule handle_zeros_pos)
  have "(cosine_distance x c1 < cosine_distance x c2) =
        (dot x c2 / ?n2 / ?h < dot x c1 / ?n1 / ?h)"
    by (simp add: cosine_distance_quotient assms del: divide_divide_eq_left)
  also have "\<dots> = (dot x c2 / ?n2 < dot x c1 / ?n1)"
    using h by (simp add: divide_less_cancel del: divide_divide_eq_left)
  also have "\<dots> = (dot x c2 * ?n1 < dot x c1 * ?n2)"
    using n1 n2 by (simp add: field_simps)
  also have "\<dots> = (dot x c2 * ?n1 * \<bar>dot x c2 * ?n1\<bar> < dot x c1 * ?n2 * \<bar>dot x c1 * ?n2\<bar>)"
    by (rule signed_square_less)
  also have "dot x c2 * ?n1 * \<bar>dot x c2 * ?n1\<bar> = dot x c2 * \<bar>dot x c2\<bar> * (?n1 * ?n1)"
    using n1 by (simp add: abs_mult)
  also have "dot x c1 * ?n2 * \<bar>dot x c1 * ?n2\<bar> = dot x c1 * \<bar>dot x c1\<bar> * (?n2 * ?n2)"
    using n2 by (simp add: abs_mult)
  finally show ?thesis by (simp add: row_norm_sumsq)
qed





lemmas compare_simps =
  perform_clustering_def choice_def take_rows_def start_def np_id_def
  cosine_distances_def ncols_def cosine_distance_less_iff sumsq_def dot_def argmin_def
  new_centroids_def mean_axis0_def select_rows_def np_all_eq_def upt_rec pc_loop_numeral






subsection \<open>The loop with open arithmetic\<close>

lemma map_index: "map (\<lambda>i. f (xs ! i)) [0..<length xs] = map f xs"
  by (rule nth_equalityI) simp_all

lemma cosine_distances_with_exact:
  "cosine_distances_with (\<lambda>X cs i j. cosine_distance (X ! i) (cs ! j)) X Y = cosine_distances X Y"
proof -
  have "map (\<lambda>i. map (\<lambda>j. cosine_distance (X ! i) (cs ! j)) [0..<length cs]) [0..<length X] =
        map (\<lambda>x. map (cosine_distance x) cs) X" for cs
  proof -
    have "map (\<lambda>j. cosine_distance x (cs ! j)) [0..<length cs] = map (cosine_distance x) cs" for x
      by (rule map_index)
    then have "map (\<lambda>i. map (\<lambda>j. cosine_distance (X ! i) (cs ! j)) [0..<length cs]) [0..<length X] =
        map (\<lambda>i. (\<lambda>x. map (cosine_distance x) cs) (X ! i)) [0..<length X]"
      by simp
    also have "\<dots> = map (\<lambda>x. map (cosine_distance x) cs) X" by (rule map_index)
    finally show ?thesis .
  qed
  then show ?thesis
    by (simp add: cosine_distances_with_def cosine_distances_def split: option.splits)
qed

lemma loop_with_exact:
  "loop_with (\<lambda>X cs i j. cosine_distance (X ! i) (cs ! j)) n X k s = pc_loop n X k s"
  by (induction n arbitrary: s) (auto simp: cosine_distances_with_exact split: sum.splits)




lemma loop_with_exact_foc:
  "loop_with (\<lambda>X cs i j. cosine_distance (X ! i) (cs ! j)) n X k s = foc_loop n X k s"
  by (simp add: loop_with_exact foc_loop_eq_pc_loop)

text \<open>
  In exact arithmetic the third row of the example is at the same distance from both
  centroids and receives label 0.
\<close>

lemma exact_distances_tie:
  "cosine_distance [3, - 1] [3, 4] = cosine_distance [3, - 1] [0, - 3]"
proof -
  have "\<not> cosine_distance [3, - 1] [3, 4] < cosine_distance [3, - 1] [0, - 3]"
    by (simp add: cosine_distance_less_iff sumsq_def dot_def)
  moreover have "\<not> cosine_distance [3, - 1] [0, - 3] < cosine_distance [3, - 1] [3, 4]"
    by (simp add: cosine_distance_less_iff sumsq_def dot_def)
  ultimately show ?thesis by simp
qed

lemma exact_run:
  "pc_loop (Suc 0) [[3, 4], [0, - 3], [3, - 1]] 2 (start [[3, 4], [0, - 3]]) =
     Inr \<lparr>iteration = 1, initial_centroids = [Some [3, 3 / 2], Some [0, - 3]],
          labels = [0, 1, 0]\<rparr>"
  by (simp add: compare_simps)

subsection \<open>The model selection on eleven rows\<close>

lemma trial_X11:
  "trial np_id capped_score g X11 2 = Inr ([0, 1, 0, 0, 0, 0, 0, 0, 0, 0, 0], 2, 43)"
  "trial np_id capped_score g X11 3 = Inr ([0, 1, 2, 0, 0, 0, 0, 0, 0, 0, 0], 3, 43)"
  "trial np_id capped_score g X11 4 = Inr ([0, 1, 2, 3, 0, 0, 0, 0, 0, 0, 0], 4, 43)"
  "trial np_id capped_score g X11 5 = Inr ([0, 1, 2, 3, 4, 0, 0, 0, 0, 0, 0], 5, 43)"
  "trial np_id capped_score g X11 6 = Inr ([0, 1, 2, 3, 4, 5, 0, 0, 0, 0, 0], 5, 43)"
  "trial np_id capped_score g X11 7 = Inr ([0, 1, 2, 3, 4, 5, 6, 0, 0, 0, 0], 5, 43)"
  "trial np_id capped_score g X11 8 = Inr ([0, 1, 2, 3, 4, 5, 6, 7, 0, 0, 0], 5, 43)"
  "trial np_id capped_score g X11 9 = Inr ([0, 1, 2, 3, 4, 5, 6, 7, 8, 0, 0], 5, 43)"
  "trial np_id capped_score g X11 10 = Inr ([0, 1, 2, 3, 4, 5, 6, 7, 8, 9, 0], 5, 43)"
  by (simp_all add: run_simps X11_def basis_def capped_score_def)

lemma find_optimal_clusters_X11: "find_optimal_clusters np_id capped_score 0 X11 = Inr (5, 43)"
  by (simp add: find_optimal_clusters_def K_eq trial_X11 argmax_def)

section \<open>The claims\<close>

text \<open>
  C1, model selection correctness. When \<open>find_optimal_clusters\<close> returns \<open>best_k\<close>, then
  \<open>best_k\<close> is one of the candidates 2 to 10, and the score of its pass is at least the
  score of the pass of every candidate \<open>k\<close>; a candidate with the same score is not
  smaller than \<open>best_k\<close>. (A pass does not depend on the generator state it starts
  in, so the passes are those the function ran.)
\<close>

theorem find_optimal_clusters_best:
  assumes "find_optimal_clusters np silhouette_score g X = Inr (best_k, g')"
  shows "2 \<le> best_k \<and> best_k \<le> 10 \<and>
         (\<exists>labs sc gb. trial np silhouette_score g X best_k = Inr (labs, sc, gb) \<and>
            (\<forall>k. 2 \<le> k \<and> k \<le> 10 \<longrightarrow>
               (\<exists>labs' sc' gb'. trial np silhouette_score g X k = Inr (labs', sc', gb') \<and>
                  sc' \<le> sc \<and> (sc' = sc \<longrightarrow> best_k \<le> k))))"
  using assms by (rule best_k_spec)

theorem find_optimal_clusters_best_witness:
  "find_optimal_clusters np_id capped_score 0 X11 = Inr (5, 43) \<and>
   ((2 :: int) \<le> 5 \<and> (5 :: int) \<le> 10 \<and>
    (\<exists>labs sc gb. trial np_id capped_score 0 X11 5 = Inr (labs, sc, gb) \<and>
       (\<forall>k. 2 \<le> k \<and> k \<le> 10 \<longrightarrow>
          (\<exists>labs' sc' gb'. trial np_id capped_score 0 X11 k = Inr (labs', sc', gb') \<and>
             sc' \<le> sc \<and> (sc' = sc \<longrightarrow> 5 \<le> k)))))"
  by (rule conjI [OF find_optimal_clusters_X11
        find_optimal_clusters_best [OF find_optimal_clusters_X11]])

text \<open>
  C2, empty-cluster safety. As stated the claim fails: no policy replaces the centroid
  of an empty cluster. For two equal rows and \<open>k = 2\<close> the first iteration leaves cluster
  1 empty, its recomputed centroid is NaN and is passed to the second iteration, and
  \<open>perform_clustering\<close> ends with \<open>ValueError\<close>.
\<close>

theorem empty_cluster_counterexample:
  "pc_loop 1 [[1], [1]] 2 (start [[1], [1]]) =
     Inr \<lparr>iteration = 1, initial_centroids = [Some [1], None], labels = [0, 0]\<rparr> \<and>
   perform_clustering np_id 0 [[1], [1]] 2 = Inl ValueError"
  by (simp add: run_simps)

text \<open>
  C2 as amended. When an iteration assigns no row to a cluster \<open>j < k\<close>, the recomputed
  centroid of \<open>j\<close> is NaN; the comparison with the previous centroids then fails, and
  when a further iteration follows, the distance computation rejects the NaN centroid
  and the loop ends with \<open>ValueError\<close>.
\<close>

theorem empty_cluster_fails:
  assumes "cosine_distances X (initial_centroids s) = Inr D"
    and "j < k" and "j \<notin> set (map argmin D)"
  shows "new_centroids X (map argmin D) k ! j = None \<and>
         pc_loop (Suc (Suc n)) X k s = Inl ValueError"
proof -
  let ?labs = "map argmin D"
  let ?C' = "new_centroids X ?labs k"
  have nan: "?C' ! j = None"
    using assms(2,3) by (simp add: new_centroids_nth select_rows_empty mean_axis0_def)
  have "j < length ?C'" using assms(2) by (simp add: length_new_centroids)
  then have neq: "\<not> np_all_eq (initial_centroids s) ?C'"
    using nan by (rule np_all_eq_nan)
  have "None \<in> set ?C'"
    using nan \<open>j < length ?C'\<close> by (metis nth_mem)
  then have "cosine_distances X ?C' = Inl ValueError" by (rule cosine_distances_nan)
  then show ?thesis using nan neq assms(1) by simp
qed

theorem empty_cluster_fails_witness:
  "cosine_distances [[1], [1]] (initial_centroids (start [[1], [1]])) = Inr [[0, 0], [0, 0]] \<and>
   (1 :: nat) < 2 \<and> 1 \<notin> set (map argmin [[0, 0], [0, 0]]) \<and>
   new_centroids [[1], [1]] (map argmin [[0, 0], [0, 0]]) 2 ! 1 = None \<and>
   pc_loop (Suc (Suc 98)) [[1], [1]] 2 (start [[1], [1]]) = Inl ValueError"
proof -
  have D: "cosine_distances [[1], [1]] (initial_centroids (start [[1], [1]])) =
      Inr [[0, 0], [0, 0]]"
    by (simp add: start_def distances_ones)
  have j: "(1 :: nat) < 2" by simp
  have e: "1 \<notin> set (map argmin [[0, 0], [0, 0]])" by (simp add: argmin_def)
  show ?thesis using D j e empty_cluster_fails [OF D j e, of 98] by simp
qed




text \<open>
  C4, determinism. The result of \<open>perform_clustering\<close> for a matrix and a cluster count,
  the labeling or the error and the generator state left, is the same from every
  generator state: the function seeds the generator before it samples, and nothing else
  of what it reads is mutable.
\<close>

theorem perform_clustering_deterministic:
  "perform_clustering np g1 X best_k = perform_clustering np g2 X best_k"
  by (simp add: perform_clustering_def)




text \<open>
  C6, cluster count bound. When \<open>perform_clustering\<close> returns a labeling for a matrix
  of \<open>N\<close> rows and a cluster count \<open>best_k\<close>, the labeling has exactly \<open>N\<close> entries and
  each of them is an integer \<open>l\<close> with \<open>0 \<le> l < best_k\<close>. (Nothing says that every label
  below \<open>best_k\<close> occurs.)
\<close>

theorem labels_in_range:
  assumes "perform_clustering np g X best_k = Inr (labs, g')"
  shows "length labs = length X \<and> (\<forall>i<length labs. 0 \<le> int (labs ! i) \<and> int (labs ! i) < best_k)"
proof -
  obtain idx g1 where ch: "choice np (seed np 42) (length X) best_k = Inr (idx, g1)"
    using assms by (auto simp: perform_clustering_def split: sum.splits)
  obtain C0 where tr: "take_rows X idx = Inr C0"
    using assms ch by (auto simp: perform_clustering_def split: sum.splits)
  obtain s where lp: "pc_loop 100 X (nat best_k) (start C0) = Inr s" and labs: "labs = labels s"
    using assms ch tr by (auto simp: perform_clustering_def split: sum.splits)
  have k: "0 \<le> best_k" "length idx \<le> nat best_k" using choice_Inr [OF ch] by auto
  have "length (initial_centroids (start C0)) \<le> nat best_k"
    using k take_rows_length [OF tr] by (simp add: start_def)
  then obtain C D where C: "length C \<le> nat best_k" and D: "cosine_distances X C = Inr D"
    and l: "labels s = map argmin D"
    using pc_loop_labels [OF lp] by auto
  have lenD: "length D = length X" using cosine_distances_Inr [OF D] by auto
  have "int (labs ! i) < best_k" if "i < length labs" for i
  proof -
    have "i < length X" using that labs l lenD by simp
    then have "map argmin D ! i < length C" using assigned_in_range [OF D] by blast
    then show ?thesis using C k labs l by simp
  qed
  then show ?thesis using labs l lenD by simp
qed

theorem labels_in_range_witness:
  "perform_clustering np_id 0 [[1, 0, 0], [0, 1, 0], [0, 0, 1]] 2 = Inr ([0, 1, 0], 43) \<and>
   length [0, 1, 0 :: nat] = length [[1, 0, 0], [0, 1, 0], [0, 0, 1 :: real]] \<and>
   int ([0, 1, 0] ! 1) < 2"
proof -
  have run: "perform_clustering np_id 0 [[1, 0, 0], [0, 1, 0], [0, 0, 1]] 2 = Inr ([0, 1, 0], 43)"
    by (simp add: run_simps)
  have "length [0, 1, 0 :: nat] = length [[1, 0, 0], [0, 1, 0], [0, 0, 1 :: real]] \<and>
        (\<forall>i<length [0, 1, 0 :: nat]. 0 \<le> int ([0, 1, 0] ! i) \<and> int ([0, 1, 0] ! i) < 2)"
    by (rule labels_in_range [OF run])
  then show ?thesis using run by simp
qed

text \<open>
  C7, bounded termination with exact-equality early stop. As stated the claim fails:
  the loop also stops before the cap when the distance computation raises. For two
  equal rows and \<open>k = 2\<close> the first iteration finds the centroids changed, and the second
  one ends the loop with \<open>ValueError\<close>.
\<close>

theorem bounded_iterations_counterexample:
  "pc_loop 1 [[1, 1], [1, 1]] 2 (start [[1, 1], [1, 1]]) =
     Inr \<lparr>iteration = 1, initial_centroids = [Some [1, 1], None], labels = [0, 0]\<rparr> \<and>
   \<not> np_all_eq [Some [1, 1], Some [1, 1]] (new_centroids [[1, 1], [1, 1]] [0, 0] 2) \<and>
   pc_loop 2 [[1, 1], [1, 1]] 2 (start [[1, 1], [1, 1]]) = Inl ValueError \<and>
   pc_loop 100 [[1, 1], [1, 1]] 2 (start [[1, 1], [1, 1]]) = Inl ValueError"
  by (simp add: run_simps)

text \<open>
  C7 as amended. A loop that returns has run at least one and at most 100 iterations,
  and when it has run fewer than 100, the centroids recomputed in its last iteration
  are equal, entry by entry, to the centroids that iteration started with. Conversely
  an iteration whose recomputed centroids are equal to the ones it started with ends
  the loop at once. The only other end of the loop is a \<open>ValueError\<close>.
\<close>

theorem bounded_iterations:
  "(pc_loop 100 X k (start C) = Inr s' \<longrightarrow>
      1 \<le> iteration s' \<and> iteration s' \<le> 100 \<and>
      (iteration s' < 100 \<longrightarrow>
         np_all_eq (initial_centroids s') (new_centroids X (labels s') k))) \<and>
   (cosine_distances X (initial_centroids s) = Inr D \<and>
    np_all_eq (initial_centroids s) (new_centroids X (map argmin D) k) \<longrightarrow>
      pc_loop (Suc n) X k s =
        Inr \<lparr>iteration = Suc (iteration s), initial_centroids = initial_centroids s,
             labels = map argmin D\<rparr>) \<and>
   (pc_loop 100 X k (start C) = Inl e \<longrightarrow> e = ValueError)"
proof (intro conjI impI)
  assume run: "pc_loop 100 X k (start C) = Inr s'"
  have inv: "iteration s' \<le> iteration (start C) + 100 \<and>
         (0 < (100 :: nat) \<longrightarrow> iteration (start C) < iteration s') \<and>
         (iteration s' < iteration (start C) + 100 \<longrightarrow>
            np_all_eq (initial_centroids s') (new_centroids X (labels s') k))"
    by (rule pc_loop_iteration [OF run])
  show "1 \<le> iteration s'" using inv by (simp add: start_def)
  show "iteration s' \<le> 100" using inv by (simp add: start_def)
  assume "iteration s' < 100"
  then show "np_all_eq (initial_centroids s') (new_centroids X (labels s') k)"
    using inv by (simp add: start_def)
next
  assume "cosine_distances X (initial_centroids s) = Inr D \<and>
    np_all_eq (initial_centroids s) (new_centroids X (map argmin D) k)"
  then show "pc_loop (Suc n) X k s =
        Inr \<lparr>iteration = Suc (iteration s), initial_centroids = initial_centroids s,
             labels = map argmin D\<rparr>"
    by simp
next
  assume "pc_loop 100 X k (start C) = Inl e"
  then show "e = ValueError" by (rule pc_loop_error)
qed

theorem bounded_iterations_witness:
  "pc_loop 100 [[1, 0], [0, 1]] 2 (start [[1, 0], [0, 1]]) =
     Inr \<lparr>iteration = 1, initial_centroids = [Some [1, 0], Some [0, 1]], labels = [0, 1]\<rparr> \<and>
   cosine_distances [[1, 0], [0, 1]] (initial_centroids (start [[1, 0], [0, 1]])) =
     Inr [[0, 1], [1, 0]] \<and>
   np_all_eq (initial_centroids (start [[1, 0], [0, 1]]))
     (new_centroids [[1, 0], [0, 1]] (map argmin [[0, 1], [1, 0]]) 2) \<and>
   pc_loop (Suc 99) [[1, 0], [0, 1]] 2 (start [[1, 0], [0, 1]]) =
     Inr \<lparr>iteration = Suc (iteration (start [[1, 0], [0, 1]])),
          initial_centroids = initial_centroids (start [[1, 0], [0, 1]]),
          labels = map argmin [[0, 1], [1, 0]]\<rparr> \<and>
   (1 :: nat) \<le> 1 \<and> (1 :: nat) \<le> 100 \<and>
   np_all_eq [Some [1, 0], Some [0, 1]] (new_centroids [[1, 0], [0, 1]] [0, 1] 2)"
proof -
  let ?X = "[[1, 0], [0, 1 :: real]]"
  let ?s' = "\<lparr>iteration = 1, initial_centroids = [Some [1, 0], Some [0, 1]], labels = [0, 1]\<rparr>"
  have run: "pc_loop 100 ?X 2 (start ?X) = Inr ?s'"
    by (simp add: run_simps)
  have D: "cosine_distances ?X (initial_centroids (start ?X)) = Inr [[0, 1], [1, 0]]"
    by (simp add: start_def distances_unit_square)
  have eq: "np_all_eq (initial_centroids (start ?X))
     (new_centroids ?X (map argmin [[0, 1], [1, 0]]) 2)"
    by (simp add: run_simps)
  note b = bounded_iterations [of ?X 2 ?X ?s' "start ?X" "[[0, 1], [1, 0]]" 99]
  have "pc_loop (Suc 99) ?X 2 (start ?X) =
     Inr \<lparr>iteration = Suc (iteration (start ?X)),
          initial_centroids = initial_centroids (start ?X),
          labels = map argmin [[0, 1], [1, 0]]\<rparr>"
    using b D eq by blast
  moreover have "1 \<le> iteration ?s' \<and> iteration ?s' \<le> 100 \<and>
      (iteration ?s' < 100 \<longrightarrow>
         np_all_eq (initial_centroids ?s') (new_centroids ?X (labels ?s') 2))"
    using b run by blast
  ultimately show ?thesis using run D eq by simp
qed



text \<open>
  C9, invalid cluster count rejection. As stated the claim fails at \<open>k = 1\<close>, which is
  accepted: all rows receive label 0, whichever row is the first centroid.
\<close>

theorem cluster_count_counterexample:
  "perform_clustering np_id 0 [[1, 2], [3, 4]] 1 = Inr ([0, 0], 43) \<and>
   pc_loop 100 [[1, 2], [3, 4]] 1 (start [[1, 2]]) =
     Inr \<lparr>iteration = 2, initial_centroids = [Some [2, 3]], labels = [0, 0]\<rparr> \<and>
   pc_loop 100 [[1, 2], [3, 4]] 1 (start [[3, 4]]) =
     Inr \<lparr>iteration = 2, initial_centroids = [Some [2, 3]], labels = [0, 0]\<rparr>"
  by (simp add: run_simps)

text \<open>
  C9 as amended. For \<open>best_k \<le> 0\<close> and for \<open>best_k\<close> greater than the number of rows,
  \<open>perform_clustering\<close> fails with \<open>ValueError\<close> and returns no labeling. Every
  \<open>best_k\<close> from 1 to the number of rows passes the size check of the sampling.
\<close>

theorem cluster_count_check:
  "(best_k \<le> 0 \<or> int (length X) < best_k \<longrightarrow>
      perform_clustering np g X best_k = Inl ValueError) \<and>
   (1 \<le> best_k \<and> best_k \<le> int (length X) \<longrightarrow>
      (\<exists>idx g'. choice np (seed np 42) (length X) best_k = Inr (idx, g')))"
proof (intro conjI impI)
  assume bad: "best_k \<le> 0 \<or> int (length X) < best_k"
  show "perform_clustering np g X best_k = Inl ValueError"
  proof (cases "best_k = 0")
    case True
    obtain p g' where p: "permutation np (seed np 42) (length X) = (p, g')"
      by (cases "permutation np (seed np 42) (length X)")
    have "choice np (seed np 42) (length X) 0 = Inr ([], g')"
      using p by (simp add: choice_def)
    moreover have "pc_loop 100 X 0 (start []) = Inl ValueError"
      by (simp add: numeral_eq_Suc start_def cosine_distances_def)
    ultimately show ?thesis using True
      by (simp add: perform_clustering_def take_rows_def)
  next
    case False
    then have "choice np (seed np 42) (length X) best_k = Inl ValueError"
      using bad by (auto simp: choice_def)
    then show ?thesis by (simp add: perform_clustering_def)
  qed
next
  assume "1 \<le> best_k \<and> best_k \<le> int (length X)"
  then show "\<exists>idx g'. choice np (seed np 42) (length X) best_k = Inr (idx, g')"
    by (auto simp: choice_def split: prod.splits)
qed

theorem cluster_count_check_witness:
  "int (length [[1, 2], [3, 4 :: real]]) < 3 \<and>
   perform_clustering np_id 0 [[1, 2], [3, 4]] 3 = Inl ValueError \<and>
   (1 :: int) \<le> 1 \<and> 1 \<le> int (length [[1, 2], [3, 4 :: real]]) \<and>
   (\<exists>idx g'. choice np_id (seed np_id 42) (length [[1, 2], [3, 4 :: real]]) 1 = Inr (idx, g'))"
proof -
  have a: "int (length [[1, 2], [3, 4 :: real]]) < 3" by simp
  have b: "(1 :: int) \<le> 1 \<and> 1 \<le> int (length [[1, 2], [3, 4 :: real]])" by simp
  have "perform_clustering np_id 0 [[1, 2], [3, 4]] 3 = Inl ValueError"
    using a cluster_count_check [of 3 "[[1, 2], [3, 4]]" np_id 0] by blast
  moreover have
    "\<exists>idx g'. choice np_id (seed np_id 42) (length [[1, 2], [3, 4 :: real]]) 1 = Inr (idx, g')"
    using b cluster_count_check [of 1 "[[1, 2], [3, 4]]" np_id 0] by blast
  ultimately show ?thesis using a b by blast
qed

text \<open>
  C10, selection/partition agreement. When \<open>find_optimal_clusters\<close> returns \<open>best_k\<close>,
  \<open>perform_clustering\<close> called with \<open>best_k\<close> in the generator state left returns the
  labeling that the pass for \<open>best_k\<close> computed and scored, whatever generator state
  that pass started in.
\<close>

theorem selection_partition_agreement:
  assumes "find_optimal_clusters np silhouette_score g X = Inr (best_k, g')"
  shows "\<exists>labs sc gb gp. (\<forall>ga. trial np silhouette_score ga X best_k = Inr (labs, sc, gb)) \<and>
           perform_clustering np g' X best_k = Inr (labs, gp)"
proof -
  obtain labs sc gb where t: "trial np silhouette_score g X best_k = Inr (labs, sc, gb)"
    using best_k_spec [OF assms] by blast
  then have "perform_clustering np g' X best_k = Inr (labs, gb)"
    by (auto simp: trial_def perform_clustering_def foc_loop_eq_pc_loop split: sum.splits)
  moreover have "\<forall>ga. trial np silhouette_score ga X best_k = Inr (labs, sc, gb)"
    using t trial_any_state [of np silhouette_score _ X best_k g] by simp
  ultimately show ?thesis by blast
qed

theorem selection_partition_agreement_witness:
  "find_optimal_clusters np_id capped_score 0 X11 = Inr (5, 43) \<and>
   (\<exists>gp. perform_clustering np_id 43 X11 5 = Inr ([0, 1, 2, 3, 4, 0, 0, 0, 0, 0, 0], gp)) \<and>
   trial np_id capped_score 0 X11 5 = Inr ([0, 1, 2, 3, 4, 0, 0, 0, 0, 0, 0], 5, 43)"
proof -
  obtain labs sc gb gp where
    t: "\<forall>ga. trial np_id capped_score ga X11 5 = Inr (labs, sc, gb)"
    and p: "perform_clustering np_id 43 X11 5 = Inr (labs, gp)"
    using selection_partition_agreement [OF find_optimal_clusters_X11] by blast
  have "labs = [0, 1, 2, 3, 4, 0, 0, 0, 0, 0, 0]"
    using t trial_X11(4) [of 0] by simp
  then show ?thesis using p find_optimal_clusters_X11 trial_X11(4) by blast
qed

end
